theory Spec2Isabelle
  imports
    Main
    "HOL-Library.Char_ord"
    "HOL-Library.List_Lexorder"
    "HOL-Library.Multiset"
    "HOL-Library.Product_Lexorder"
begin

section \<open>Python primitives used by importarr.py\<close>

datatype py_error = ValueError | ZeroDivisionError

text \<open>
  \<^verbatim>\<open>range(i, n, step)\<close> for a positive step, counting up from \<open>i\<close>.
  A zero step is caught by \<open>py_range0\<close> before this function is reached.
\<close>

function range_from :: "nat \<Rightarrow> nat \<Rightarrow> nat \<Rightarrow> nat list" where
  "range_from i n step =
     (if step = 0 \<or> n \<le> i then [] else i # range_from (i + step) n step)"
  by pat_completeness auto
termination
  by (relation "measure (\<lambda>(i, n, step). n - i)") auto

declare range_from.simps [simp del]

text \<open>
  \<^verbatim>\<open>range(0, n, step)\<close> with an arbitrary Python integer as step: a zero step raises
  ValueError, a negative step counts down from 0 and is empty since \<open>n \<ge> 0\<close>.
\<close>

definition py_range0 :: "nat \<Rightarrow> int \<Rightarrow> py_error + nat list" where
  "py_range0 n step =
     (if step = 0 then Inl ValueError
      else if step < 0 then Inr []
      else Inr (range_from 0 n (nat step)))"

text \<open>The slice \<^verbatim>\<open>xs[a:b]\<close> for non-negative bounds.\<close>

definition slice :: "'a list \<Rightarrow> nat \<Rightarrow> nat \<Rightarrow> 'a list" where
  "slice xs a b = drop a (take b xs)"

section \<open>Batching in process_file_folder\<close>

text \<open>
  The batches that the loop
  \<^verbatim>\<open>for i in range(0, len(matched), FILE_BATCH_SIZE): batch = matched[i:i+FILE_BATCH_SIZE]\<close>
  hands to \<^verbatim>\<open>import_file_batch\<close>, in order.
\<close>

definition file_batches :: "'a list \<Rightarrow> int \<Rightarrow> py_error + 'a list list" where
  "file_batches matched file_batch_size =
     (case py_range0 (length matched) file_batch_size of
        Inl e \<Rightarrow> Inl e
      | Inr starts \<Rightarrow> Inr (map (\<lambda>i. slice matched i (i + nat file_batch_size)) starts))"

text \<open>\<^verbatim>\<open>total_batches = (len(matched) + FILE_BATCH_SIZE - 1) // FILE_BATCH_SIZE\<close>\<close>

definition total_batches :: "nat \<Rightarrow> int \<Rightarrow> int" where
  "total_batches n file_batch_size = (int n + file_batch_size - 1) div file_batch_size"

section \<open>Folder discovery\<close>

text \<open>
  The scan sees the filesystem only through \<^verbatim>\<open>os.listdir\<close>, \<^verbatim>\<open>os.path.isdir\<close>,
  \<^verbatim>\<open>os.path.isfile\<close> and \<^verbatim>\<open>os.path.exists\<close>. \<open>listdir\<close> is \<open>None\<close> where the
  call raises (unreadable, missing, not a directory).
\<close>

record filesystem =
  listdir :: "string \<Rightarrow> string list option"
  isdir :: "string \<Rightarrow> bool"
  isfile :: "string \<Rightarrow> bool"
  path_exists :: "string \<Rightarrow> bool"

text \<open>\<^verbatim>\<open>os.path.join(a, b)\<close> on POSIX.\<close>

definition path_join :: "string \<Rightarrow> string \<Rightarrow> string" where
  "path_join a b =
     (if b \<noteq> [] \<and> hd b = CHR ''/'' then b
      else if a = [] \<or> last a = CHR ''/'' then a @ b
      else a @ ''/'' @ b)"

text \<open>What the scan does to the outside world: directory listings and printed warnings.\<close>

datatype event = Listdir string | Warning string

text \<open>
  \<^verbatim>\<open>count_files_in_folder\<close>: the count, and the events of the call. Any exception
  gives 0 without a message.
\<close>

definition count_files_in_folder :: "filesystem \<Rightarrow> string \<Rightarrow> int \<times> event list" where
  "count_files_in_folder fs folder =
     (case listdir fs folder of
        None \<Rightarrow> (0, [Listdir folder])
      | Some items \<Rightarrow>
          (int (length [item \<leftarrow> items. isfile fs (path_join folder item)]), [Listdir folder]))"

type_synonym folder_record = "string \<times> int \<times> int"

record scan_state =
  all_folders :: "folder_record list"
  trace :: "event list"

text \<open>
  The nested function \<^verbatim>\<open>scan_directory\<close>; the list \<^verbatim>\<open>all_folders\<close> it appends to
  is threaded through as state. Only \<^verbatim>\<open>os.listdir(path)\<close> can raise inside the
  \<^verbatim>\<open>try\<close> block: the handler prints the warning and the call returns.
\<close>

function scan_directory ::
  "filesystem \<Rightarrow> int \<Rightarrow> string \<Rightarrow> int \<Rightarrow> scan_state \<Rightarrow> scan_state" where
  "scan_directory fs max_depth path current_depth st =
     (if current_depth > max_depth then st
      else case listdir fs path of
        None \<Rightarrow> st\<lparr>trace := trace st @ [Listdir path, Warning path]\<rparr>
      | Some items \<Rightarrow>
          fold (\<lambda>subfolder st'.
                  scan_directory fs max_depth subfolder (current_depth + 1)
                    \<lparr>all_folders = all_folders st' @
                       [(subfolder, current_depth, fst (count_files_in_folder fs subfolder))],
                     trace = trace st' @ snd (count_files_in_folder fs subfolder)\<rparr>)
               [path_join path item. item \<leftarrow> items, isdir fs (path_join path item)]
               (st\<lparr>trace := trace st @ [Listdir path]\<rparr>))"
  by pat_completeness auto
termination
  by (relation "measure (\<lambda>(fs, max_depth, path, current_depth, st). nat (max_depth + 1 - current_depth))")
     auto

declare scan_directory.simps [simp del]

text \<open>The sort key \<^verbatim>\<open>lambda x: (-x[1], -x[2], x[0])\<close>.\<close>

definition folder_key :: "folder_record \<Rightarrow> int \<times> int \<times> string" where
  "folder_key x = (- fst (snd x), - snd (snd x), fst x)"

text \<open>
  \<^verbatim>\<open>get_all_subfolders_recursive\<close>: the sorted list it returns, and the events of the
  scan. \<^verbatim>\<open>list.sort\<close> is stable, as \<open>sort_key\<close> is.
\<close>

definition scan_root :: "filesystem \<Rightarrow> string \<Rightarrow> int \<Rightarrow> scan_state" where
  "scan_root fs root_path max_depth =
     scan_directory fs max_depth root_path 1 \<lparr>all_folders = [], trace = []\<rparr>"

definition get_all_subfolders_recursive ::
  "filesystem \<Rightarrow> string \<Rightarrow> int \<Rightarrow> folder_record list" where
  "get_all_subfolders_recursive fs root_path max_depth =
     sort_key folder_key (all_folders (scan_root fs root_path max_depth))"

text \<open>
  The directories within a given distance of the root: \<open>dirs_at fs root d\<close> lists the
  paths reached from the root by \<open>d\<close> steps into a subdirectory.
\<close>

definition subdirs :: "filesystem \<Rightarrow> string \<Rightarrow> string list" where
  "subdirs fs path =
     (case listdir fs path of
        None \<Rightarrow> []
      | Some items \<Rightarrow> [path_join path item. item \<leftarrow> items, isdir fs (path_join path item)])"

fun dirs_at :: "filesystem \<Rightarrow> string \<Rightarrow> nat \<Rightarrow> string list" where
  "dirs_at fs root 0 = [root]"
| "dirs_at fs root (Suc d) = concat (map (subdirs fs) (dirs_at fs root d))"

definition listed :: "event list \<Rightarrow> string list" where
  "listed tr = concat (map (\<lambda>e. case e of Listdir p \<Rightarrow> [p] | Warning p \<Rightarrow> []) tr)"

definition warned :: "event list \<Rightarrow> string list" where
  "warned tr = concat (map (\<lambda>e. case e of Listdir p \<Rightarrow> [] | Warning p \<Rightarrow> [p]) tr)"

text \<open>
  All directories at distance at most \<open>max_depth\<close> from the root (the root itself is
  at distance 0); empty for a negative \<open>max_depth\<close>.
\<close>

definition dirs_within :: "filesystem \<Rightarrow> string \<Rightarrow> int \<Rightarrow> string list" where
  "dirs_within fs root max_depth =
     (if max_depth < 0 then []
      else concat (map (dirs_at fs root) [0..<Suc (nat max_depth)]))"

text \<open>The same filesystem with every directory that cannot be read made readable and empty.\<close>

definition unreadable_as_empty :: "filesystem \<Rightarrow> filesystem" where
  "unreadable_as_empty fs =
     fs\<lparr>listdir := (\<lambda>p. case listdir fs p of None \<Rightarrow> Some [] | Some items \<Rightarrow> Some items)\<rparr>"

text \<open>
  Concrete filesystems for the scenarios: directories with their listings (\<open>None\<close> for
  a directory that cannot be read) and the regular files.
\<close>

definition fs_of :: "(string \<times> string list option) list \<Rightarrow> string list \<Rightarrow> filesystem" where
  "fs_of dirs files =
     \<lparr>listdir = (\<lambda>p. case map_of dirs p of None \<Rightarrow> None | Some l \<Rightarrow> l),
      isdir = (\<lambda>p. map_of dirs p \<noteq> None),
      isfile = (\<lambda>p. p \<in> set files),
      path_exists = (\<lambda>p. map_of dirs p \<noteq> None \<or> p \<in> set files)\<rparr>"

definition scenario_fs :: filesystem where
  "scenario_fs = fs_of
     [(''/import'', Some [''A'']),
      (''/import/A'', Some [''1'', ''2'', ''B'', ''3'', ''4'', ''5'']),
      (''/import/A/B'', Some [''1'', ''2'', ''3''])]
     [''/import/A/1'', ''/import/A/2'', ''/import/A/3'', ''/import/A/4'', ''/import/A/5'',
      ''/import/A/B/1'', ''/import/A/B/2'', ''/import/A/B/3'']"

definition locked_fs :: filesystem where
  "locked_fs = fs_of
     [(''/import'', Some [''X'', ''Y'']),
      (''/import/X'', None),
      (''/import/Y'', Some [''1''])]
     [''/import/Y/1'']"

text \<open>
  The order the sort establishes, written out: greater depth first, then greater file
  count, then the smaller path.
\<close>

definition sorts_before :: "folder_record \<Rightarrow> folder_record \<Rightarrow> bool" where
  "sorts_before a b \<longleftrightarrow>
     (case (a, b) of ((p, d, c), (p', d', c')) \<Rightarrow>
        d > d' \<or> (d = d' \<and> (c > c' \<or> (c = c' \<and> p < p'))))"

text \<open>
  What the scan maintains: every collected record has a depth between 1 and the maximum
  and names a directory at that distance from the root, and every directory listing was
  of a directory within the maximum depth.
\<close>

definition depth_ok :: "filesystem \<Rightarrow> string \<Rightarrow> int \<Rightarrow> scan_state \<Rightarrow> bool" where
  "depth_ok fs root max_depth st \<longleftrightarrow>
     (\<forall>x \<in> set (all_folders st).
        1 \<le> fst (snd x) \<and> fst (snd x) \<le> max_depth \<and>
        fst x \<in> set (dirs_at fs root (nat (fst (snd x)))))
     \<and> set (listed (trace st)) \<subseteq> set (dirs_within fs root max_depth)"

text \<open>
  What the scan maintains about directories that cannot be read: a collected record of
  such a directory has file count 0 and, below the maximum depth, a warning was printed for
  it; warnings are printed for unreadable directories only. While the directory \<open>path\<close>
  is still to be entered, its warning is pending.
\<close>

definition warn_pending :: "filesystem \<Rightarrow> int \<Rightarrow> string \<Rightarrow> int \<Rightarrow> scan_state \<Rightarrow> bool" where
  "warn_pending fs max_depth path current_depth st \<longleftrightarrow>
     (\<forall>x \<in> set (all_folders st). listdir fs (fst x) = None \<longrightarrow>
        snd (snd x) = 0 \<and>
        (fst (snd x) < max_depth \<longrightarrow>
           fst x \<in> set (warned (trace st)) \<or> (fst x = path \<and> current_depth \<le> max_depth)))
     \<and> (\<forall>p \<in> set (warned (trace st)). listdir fs p = None)"

definition warn_ok :: "filesystem \<Rightarrow> int \<Rightarrow> scan_state \<Rightarrow> bool" where
  "warn_ok fs max_depth st \<longleftrightarrow>
     (\<forall>x \<in> set (all_folders st). listdir fs (fst x) = None \<longrightarrow>
        snd (snd x) = 0 \<and> (fst (snd x) < max_depth \<longrightarrow> fst x \<in> set (warned (trace st))))
     \<and> (\<forall>p \<in> set (warned (trace st)). listdir fs p = None)"

section \<open>Configuration\<close>


section \<open>Remote file descriptors and their classification\<close>

text \<open>
  Atomic JSON values with Python's truthiness; \<open>JNull\<close> is \<^verbatim>\<open>None\<close>. A JSON object
  is a list of key-value pairs, \<^verbatim>\<open>d.get(k)\<close> is \<open>dict_get\<close>.
\<close>

datatype jval = JNull | JBool bool | JInt int | JStr string

fun truthy :: "jval \<Rightarrow> bool" where
  "truthy JNull = False"
| "truthy (JBool b) = b"
| "truthy (JInt n) = (n \<noteq> 0)"
| "truthy (JStr s) = (s \<noteq> [])"

type_synonym jdict = "(string \<times> jval) list"

definition dict_get :: "jdict \<Rightarrow> string \<Rightarrow> jval" where
  "dict_get d k = (case map_of d k of None \<Rightarrow> JNull | Some v \<Rightarrow> v)"

definition dict_get_default :: "jdict \<Rightarrow> string \<Rightarrow> jval \<Rightarrow> jval" where
  "dict_get_default d k dflt = (case map_of d k of None \<Rightarrow> dflt | Some v \<Rightarrow> v)"

text \<open>
  A descriptor returned by \<^verbatim>\<open>/api/v3/manualimport\<close>. The entities \<open>scene\<close> and
  \<open>movie\<close> are an object or absent (\<^verbatim>\<open>null\<close>); the fields that are only passed
  through are kept as text, \<open>None\<close> when the key is absent.
\<close>

record remote_file =
  file_path :: string
  folderName :: "string option"
  scene :: "jdict option"
  movie :: "jdict option"
  rejections :: "jdict list"
  quality :: "string option"
  languages :: "string option"
  releaseGroup :: "string option"
  downloadId :: "string option"

text \<open>Truthiness of \<^verbatim>\<open>file.get("scene")\<close>: an object with at least one key.\<close>

definition present :: "jdict option \<Rightarrow> bool" where
  "present e = (case e of None \<Rightarrow> False | Some d \<Rightarrow> d \<noteq> [])"

definition entity_get :: "jdict option \<Rightarrow> string \<Rightarrow> jval" where
  "entity_get e k = (case e of None \<Rightarrow> JNull | Some d \<Rightarrow> dict_get d k)"

text \<open>
  The variable \<^verbatim>\<open>scene_id\<close> of \<^verbatim>\<open>filter_matched_files\<close> after its
  \<^verbatim>\<open>if\<close>/\<^verbatim>\<open>elif\<close>.
\<close>

definition scene_id :: "remote_file \<Rightarrow> jval" where
  "scene_id file =
     (if present (scene file) \<and> truthy (entity_get (scene file) ''id'')
        then entity_get (scene file) ''id''
      else if present (movie file) \<and> truthy (entity_get (movie file) ''id'')
        then entity_get (movie file) ''id''
      else JNull)"

record potential_match =
  pm_file :: remote_file
  scene_title :: jval
  pm_rejections :: "jval list"

record unmatched_file =
  um_path :: jval
  um_rejections :: "jval list"

definition rejection_reasons :: "remote_file \<Rightarrow> jval list" where
  "rejection_reasons file =
     map (\<lambda>r. dict_get_default r ''reason'' (JStr ''Unknown'')) (rejections file)"

text \<open>\<^verbatim>\<open>scene or movie\<close>\<close>

definition scene_or_movie :: "remote_file \<Rightarrow> jdict option" where
  "scene_or_movie file = (if present (scene file) then scene file else movie file)"

text \<open>The body of the loop of \<^verbatim>\<open>filter_matched_files\<close>, on the three lists.\<close>

definition classify ::
  "remote_file \<Rightarrow> remote_file list \<times> potential_match list \<times> unmatched_file list
     \<Rightarrow> remote_file list \<times> potential_match list \<times> unmatched_file list" where
  "classify file acc =
     (case acc of (matched, potential, unmatched) \<Rightarrow>
        if truthy (scene_id file) then (matched @ [file], potential, unmatched)
        else if present (scene file) \<or> present (movie file) then
          (matched,
           potential @
             [\<lparr>pm_file = file,
               scene_title =
                 (if present (scene_or_movie file)
                  then dict_get_default (the (scene_or_movie file)) ''title'' (JStr ''Unknown'')
                  else JStr ''Unknown''),
               pm_rejections = rejection_reasons file\<rparr>],
           unmatched)
        else
          (matched, potential,
           unmatched @
             [\<lparr>um_path = JStr (file_path file),
               um_rejections =
                 (if rejections file \<noteq> [] then rejection_reasons file
                  else [JStr ''No scene/movie data in response''])\<rparr>]))"

definition filter_matched_files ::
  "remote_file list \<Rightarrow> remote_file list \<times> potential_match list \<times> unmatched_file list" where
  "filter_matched_files files = fold classify files ([], [], [])"

text \<open>
  The three buckets, and the one a descriptor goes to: the conditions of the
  \<^verbatim>\<open>if\<close>/\<^verbatim>\<open>elif\<close>/\<^verbatim>\<open>else\<close> of the loop.
\<close>

datatype bucket = Matched | Potential | Unmatched

definition bucket_of :: "remote_file \<Rightarrow> bucket" where
  "bucket_of file =
     (if truthy (scene_id file) then Matched
      else if present (scene file) \<or> present (movie file) then Potential
      else Unmatched)"

text \<open>Descriptors for the scenarios: a path and the two entities, nothing else set.\<close>

definition descriptor :: "string \<Rightarrow> jdict option \<Rightarrow> jdict option \<Rightarrow> remote_file" where
  "descriptor p s m =
     \<lparr>file_path = p, folderName = None, scene = s, movie = m, rejections = [],
      quality = None, languages = None, releaseGroup = None, downloadId = None\<rparr>"

definition ten_descriptors :: "remote_file list" where
  "ten_descriptors =
     [descriptor ''/import/a1'' (Some [(''id'', JInt 1), (''title'', JStr ''One'')]) None,
      descriptor ''/import/p1'' (Some [(''title'', JStr ''Maybe'')]) None,
      descriptor ''/import/a2'' (Some [(''id'', JInt 2)]) None,
      descriptor ''/import/u1'' None None,
      descriptor ''/import/a3'' (Some [(''id'', JInt 3)]) None,
      descriptor ''/import/a4'' (Some [(''id'', JInt 4)]) None,
      descriptor ''/import/p2'' (Some [(''id'', JNull), (''title'', JStr ''Perhaps'')]) None,
      descriptor ''/import/a5'' (Some [(''id'', JInt 5)]) None,
      descriptor ''/import/u2'' None None,
      descriptor ''/import/a6'' (Some [(''id'', JInt 6)]) None]"

section \<open>Batched import submission\<close>

text \<open>
  The variable \<^verbatim>\<open>entity_id\<close> of \<^verbatim>\<open>import_file_batch\<close> after its
  \<^verbatim>\<open>if\<close>/\<^verbatim>\<open>elif\<close>.
\<close>

definition entity_id :: "remote_file \<Rightarrow> jval" where
  "entity_id file =
     (if present (scene file) \<and> truthy (entity_get (scene file) ''id'')
        then entity_get (scene file) ''id''
      else if present (movie file) \<and> truthy (entity_get (movie file) ''id'')
        then entity_get (movie file) ''id''
      else JNull)"

record formatted_file =
  ff_path :: string
  ff_folderName :: string
  movieId :: jval
  ff_quality :: string
  ff_languages :: string
  ff_releaseGroup :: string
  ff_downloadId :: string
  ff_importMode :: string

definition or_default :: "string option \<Rightarrow> string \<Rightarrow> string" where
  "or_default v dflt = (case v of None \<Rightarrow> dflt | Some s \<Rightarrow> s)"

text \<open>
  The loop that builds \<^verbatim>\<open>formatted_files\<close>: a file without a valid id is skipped
  with a warning.
\<close>

definition format_files :: "string \<Rightarrow> remote_file list \<Rightarrow> formatted_file list" where
  "format_files import_mode batch =
     concat (map (\<lambda>file.
       if \<not> truthy (entity_id file) then []
       else [\<lparr>ff_path = file_path file,
              ff_folderName = or_default (folderName file) [],
              movieId = entity_id file,
              ff_quality = or_default (quality file) ''{}'',
              ff_languages = or_default (languages file) ''[]'',
              ff_releaseGroup = or_default (releaseGroup file) [],
              ff_downloadId = or_default (downloadId file) [],
              ff_importMode = import_mode\<rparr>]) batch)"









text \<open>
  Descriptors with both entities: the scene without an \<^verbatim>\<open>id\<close> and the movie with
  one, and both with an \<^verbatim>\<open>id\<close>.
\<close>

definition scene_without_id :: remote_file where
  "scene_without_id =
     descriptor ''/import/b'' (Some [(''title'', JStr ''Ambiguous'')]) (Some [(''id'', JInt 7)])"

definition both_with_id :: remote_file where
  "both_with_id = descriptor ''/import/c'' (Some [(''id'', JInt 1)]) (Some [(''id'', JInt 2)])"

section \<open>The file import run\<close>








section \<open>Catalog sync\<close>
















section \<open>Fetching the catalog\<close>

text \<open>
  The answer of the catalog to the query for one page: a transport failure, a body with
  \<^verbatim>\<open>errors\<close>, or the scenes of the page with the reported total count (an absent list
  is empty, an absent count is 0).
\<close>

datatype 's page_response = TransportError | GraphQLErrors | Page "'s list" int

text \<open>
  The loop of \<^verbatim>\<open>get_stash_scenes\<close>, from the page it is about to request and the scenes
  fetched so far. It returns the scenes and the number of the last page requested, and
  \<open>None\<close> when it never stops.
\<close>

partial_function (option) fetch_pages ::
  "(nat \<Rightarrow> 's page_response) \<Rightarrow> nat \<Rightarrow> 's list \<Rightarrow> ('s list \<times> nat) option" where
  "fetch_pages stash page all_scenes =
     (case stash page of
        TransportError \<Rightarrow> Some (all_scenes, page)
      | GraphQLErrors \<Rightarrow> Some (all_scenes, page)
      | Page scenes total_count \<Rightarrow>
          if scenes = [] then Some (all_scenes, page)
          else if int (length (all_scenes @ scenes)) \<ge> total_count
          then Some (all_scenes @ scenes, page)
          else fetch_pages stash (page + 1) (all_scenes @ scenes))"

declare fetch_pages.simps [code]

definition get_stash_scenes :: "(nat \<Rightarrow> 's page_response) \<Rightarrow> ('s list \<times> nat) option" where
  "get_stash_scenes stash = fetch_pages stash 1 []"

text \<open>\<^verbatim>\<open>per_page = 100\<close>\<close>

definition per_page :: nat where
  "per_page = 100"

text \<open>
  The scenes a response carries, and the scenes of pages 1 to \<open>k\<close> together.
\<close>

definition scenes_of :: "'s page_response \<Rightarrow> 's list" where
  "scenes_of r = (case r of Page scenes total_count \<Rightarrow> scenes | _ \<Rightarrow> [])"

definition fetched :: "(nat \<Rightarrow> 's page_response) \<Rightarrow> nat \<Rightarrow> 's list" where
  "fetched stash k = concat (map (\<lambda>p. scenes_of (stash p)) [1..<Suc k])"

text \<open>
  The tests that end the loop at page \<open>k\<close>, all earlier pages having been accumulated:
  a failure, an empty page, or the cumulative count reaching the reported total.
\<close>

definition code_stops :: "(nat \<Rightarrow> 's page_response) \<Rightarrow> nat \<Rightarrow> bool" where
  "code_stops stash k =
     (case stash k of
        Page scenes total_count \<Rightarrow> scenes = [] \<or> int (length (fetched stash k)) \<ge> total_count
      | _ \<Rightarrow> True)"

definition first_stop :: "(nat \<Rightarrow> 's page_response) \<Rightarrow> nat \<Rightarrow> bool" where
  "first_stop stash k \<longleftrightarrow>
     1 \<le> k \<and> code_stops stash k \<and> list_all (\<lambda>j. \<not> code_stops stash j) [1..<k]"

text \<open>
  The stopping rule in the words of the specification: a page with fewer items than the
  page size, or the cumulative count reaching the reported total.
\<close>

definition spec_stops :: "(nat \<Rightarrow> 's page_response) \<Rightarrow> nat \<Rightarrow> bool" where
  "spec_stops stash k =
     (case stash k of
        Page scenes total_count \<Rightarrow>
          length scenes < per_page \<or> int (length (fetched stash k)) \<ge> total_count
      | _ \<Rightarrow> True)"

text \<open>A catalog of three scenes that answers with one scene per page.\<close>

definition short_pages :: "nat \<Rightarrow> nat page_response" where
  "short_pages p = (if 1 \<le> p \<and> p \<le> 3 then Page [p] 3 else Page [] 3)"













section \<open>Properties of batching\<close>

lemma range_from_done: "n \<le> i \<Longrightarrow> range_from i n step = []"
  by (subst range_from.simps) simp

lemma range_from_more:
  "0 < step \<Longrightarrow> i < n \<Longrightarrow> range_from i n step = i # range_from (i + step) n step"
  by (subst range_from.simps) simp

lemma concat_slices_from:
  "0 < step \<Longrightarrow>
   concat (map (\<lambda>i. slice xs i (i + step)) (range_from i (length xs) step)) = drop i xs"
proof (induction i "length xs" step rule: range_from.induct)
  case (1 i step)
  show ?case
  proof (cases "length xs \<le> i")
    case True
    then show ?thesis by (simp add: range_from_done)
  next
    case False
    have "drop (i + step) xs = drop step (drop i xs)"
      by (simp add: add.commute)
    then have split: "drop i xs = take step (drop i xs) @ drop (i + step) xs"
      by (simp only: append_take_drop_id)
    have "slice xs i (i + step) = take step (drop i xs)"
      by (simp add: slice_def drop_take)
    with 1 False split show ?thesis
      by (simp add: range_from_more)
  qed
qed

lemma slices_full_before_last:
  "0 < step \<Longrightarrow> Suc k < length (range_from i (length xs) step) \<Longrightarrow>
   length (slice xs (range_from i (length xs) step ! k) (range_from i (length xs) step ! k + step)) = step"
proof (induction i "length xs" step arbitrary: k rule: range_from.induct)
  case (1 i step)
  from 1(3) have ni: "i < length xs"
    by (cases "length xs \<le> i") (simp_all add: range_from_done)
  have unfold: "range_from i (length xs) step = i # range_from (i + step) (length xs) step"
    using ni 1(2) by (rule range_from_more[rotated])
  show ?case
  proof (cases k)
    case 0
    with 1(3) unfold have "range_from (i + step) (length xs) step \<noteq> []" by auto
    then have "i + step < length xs"
      by (cases "length xs \<le> i + step") (simp_all add: range_from_done)
    with 0 unfold show ?thesis by (simp add: slice_def)
  next
    case (Suc k')
    with 1(3) unfold have "Suc k' < length (range_from (i + step) (length xs) step)" by simp
    with 1(1)[of k'] 1(2) ni have
      "length (slice xs (range_from (i + step) (length xs) step ! k')
                 (range_from (i + step) (length xs) step ! k' + step)) = step"
      by simp
    with Suc unfold show ?thesis by simp
  qed
qed

lemma div_add_step: "0 < step \<Longrightarrow> (a + step) div step = Suc (a div step)" for a step :: nat
  using div_add_self2[of step a] by simp

lemma div_step_more:
  "0 < step \<Longrightarrow> (m + step + step - 1) div step = Suc ((m + step - 1) div step)"
  for m step :: nat
proof -
  assume s: "0 < step"
  then have e: "m + step + step - 1 = (m + step - 1) + step" by arith
  show ?thesis unfolding e using s by (rule div_add_step)
qed

lemma div_step_last: "0 < d \<Longrightarrow> d < step \<Longrightarrow> (d + step - 1) div step = 1" for d step :: nat
proof -
  assume a: "0 < d" "d < step"
  have e: "d + step - 1 = (d - 1) + step" and l: "d - 1 < step" using a by arith+
  have "((d - 1) + step) div step = Suc ((d - 1) div step)" using a by (intro div_add_step) simp
  also have "(d - 1) div step = 0" using l by simp
  finally show ?thesis unfolding e by simp
qed

lemma length_range_from:
  "0 < step \<Longrightarrow> length (range_from i n step) = (n - i + step - 1) div step"
proof (induction i n step rule: range_from.induct)
  case (1 i n step)
  show ?case
  proof (cases "n \<le> i")
    case True
    with 1(2) show ?thesis by (simp add: range_from_done)
  next
    case False
    have unfold: "range_from i n step = i # range_from (i + step) n step"
      using False 1(2) by (simp add: range_from_more)
    from 1 False have ih:
      "length (range_from (i + step) n step) = (n - (i + step) + step - 1) div step"
      by simp
    show ?thesis
    proof (cases "i + step \<le> n")
      case True
      define m where "m = n - (i + step)"
      with True have nm: "n - i = m + step" by simp
      have "length (range_from i n step) = Suc ((m + step - 1) div step)"
        unfolding unfold using ih by (simp only: m_def list.size length_Cons)
      also have "\<dots> = (m + step + step - 1) div step"
        using div_step_more[OF 1(2), of m] by (simp only:)
      finally show ?thesis by (simp only: nm)
    next
      case F2: False
      with False have z: "n - (i + step) = 0" and d: "0 < n - i" "n - i < step" by auto
      have "length (range_from i n step) = Suc ((0 + step - 1) div step)"
        unfolding unfold using ih by (simp only: z list.size length_Cons)
      also have "(0 + step - 1) div step = 0" using 1(2) by simp
      finally show ?thesis using div_step_last[OF d] by (simp only: One_nat_def)
    qed
  qed
qed

text \<open>
  C1. For a positive batch size, the batches that \<^verbatim>\<open>process_file_folder\<close> cuts from
  the Matched list concatenate, in order, to the Matched list; no batch is longer than the
  batch size; every batch but the last has exactly the batch size; there are
  \<^verbatim>\<open>total_batches\<close> of them; and a Matched list of 120 with batch size 50 gives
  batches of sizes 50, 50, 20.
\<close>

theorem batches_partition:
  assumes "0 < file_batch_size"
  shows "\<exists>bs. file_batches matched file_batch_size = Inr bs
           \<and> concat bs = matched
           \<and> (\<forall>b \<in> set bs. length b \<le> nat file_batch_size)
           \<and> (\<forall>k. Suc k < length bs \<longrightarrow> length (bs ! k) = nat file_batch_size)
           \<and> int (length bs) = total_batches (length matched) file_batch_size
           \<and> map length (projr (file_batches (replicate 120 ()) 50)) = [50, 50, 20]"
proof -
  define step where "step = nat file_batch_size"
  define starts where "starts = range_from 0 (length matched) step"
  define bs where "bs = map (\<lambda>i. slice matched i (i + step)) starts"
  from assms have step: "0 < step" and fbs: "file_batch_size = int step"
    by (simp_all add: step_def)
  have run: "file_batches matched file_batch_size = Inr bs"
    using assms by (simp add: file_batches_def py_range0_def bs_def starts_def step_def)
  have cat: "concat bs = matched"
    unfolding bs_def starts_def using concat_slices_from[OF step, of matched 0] by simp
  have bound: "\<forall>b \<in> set bs. length b \<le> step"
    by (auto simp: bs_def slice_def)
  have full: "\<forall>k. Suc k < length bs \<longrightarrow> length (bs ! k) = step"
    unfolding bs_def starts_def using slices_full_before_last[OF step, of _ 0 matched] by simp
  have "length bs = (length matched + step - 1) div step"
    unfolding bs_def starts_def using length_range_from[OF step, of 0 "length matched"] by simp
  then have "int (length bs) = (int (length matched) + int step - 1) div int step"
    using step by (simp add: of_nat_diff zdiv_int)
  then have count: "int (length bs) = total_batches (length matched) file_batch_size"
    by (simp add: total_batches_def fbs)
  have ex: "map length (projr (file_batches (replicate 120 ()) 50)) = [50, 50, 20]"
    by code_simp
  note facts = run cat bound[unfolded step_def] full[unfolded step_def] count ex
  show ?thesis
    by (rule exI[of _ bs]) (intro conjI facts)
qed

theorem batches_partition_witness:
  "(0::int) < 2 \<and> concat (projr (file_batches [1, 2, 3, 4, 5 :: nat] 2)) = [1, 2, 3, 4, 5]"
proof -
  have h: "(0::int) < 2" by simp
  from batches_partition[OF h, of "[1, 2, 3, 4, 5 :: nat]"]
  obtain bs where "file_batches [1, 2, 3, 4, 5 :: nat] 2 = Inr bs" "concat bs = [1, 2, 3, 4, 5]"
    by blast
  with h show ?thesis by simp
qed

section \<open>Properties of folder discovery\<close>

lemma fold_invariant:
  "I s \<Longrightarrow> (\<And>x s. x \<in> set xs \<Longrightarrow> I s \<Longrightarrow> I (f x s)) \<Longrightarrow> I (fold f xs s)"
  by (induction xs arbitrary: s) auto

lemma listed_append: "listed (a @ b) = listed a @ listed b"
  by (simp add: listed_def)

lemma warned_append: "warned (a @ b) = warned a @ warned b"
  by (simp add: warned_def)

lemma count_files_events: "snd (count_files_in_folder fs p) = [Listdir p]"
  by (simp add: count_files_in_folder_def split: option.splits)

lemma scan_directory_rule:
  assumes pre: "A path current_depth" "P path current_depth st"
    and skip: "\<And>path cd st. max_depth < cd \<Longrightarrow> A path cd \<Longrightarrow> P path cd st \<Longrightarrow> R st"
    and unreadable: "\<And>path cd st. cd \<le> max_depth \<Longrightarrow> listdir fs path = None \<Longrightarrow>
        A path cd \<Longrightarrow> P path cd st \<Longrightarrow> R (st\<lparr>trace := trace st @ [Listdir path, Warning path]\<rparr>)"
    and enter: "\<And>path cd st items. cd \<le> max_depth \<Longrightarrow> listdir fs path = Some items \<Longrightarrow>
        A path cd \<Longrightarrow> P path cd st \<Longrightarrow> R (st\<lparr>trace := trace st @ [Listdir path]\<rparr>)"
    and found: "\<And>path cd s x. cd \<le> max_depth \<Longrightarrow> x \<in> set (subdirs fs path) \<Longrightarrow>
        A path cd \<Longrightarrow> R s \<Longrightarrow>
        A x (cd + 1) \<and>
        P x (cd + 1) \<lparr>all_folders = all_folders s @ [(x, cd, fst (count_files_in_folder fs x))],
                       trace = trace s @ [Listdir x]\<rparr>"
  shows "R (scan_directory fs max_depth path current_depth st)"
  using assms
proof (induction fs max_depth path current_depth st rule: scan_directory.induct)
  case (1 fs max_depth path current_depth st)
  note skip = 1(4) and unreadable = 1(5) and enter = 1(6) and found = 1(7)
  show ?case
  proof (cases "current_depth > max_depth")
    case True
    with skip[OF _ 1(2,3)] show ?thesis by (subst scan_directory.simps) simp
  next
    case shallow: False
    then have le: "current_depth \<le> max_depth" by simp
    show ?thesis
    proof (cases "listdir fs path")
      case None
      with shallow unreadable[OF le None 1(2,3)] show ?thesis
        by (subst scan_directory.simps) simp
    next
      case (Some items)
      let ?subs = "[path_join path item. item \<leftarrow> items, isdir fs (path_join path item)]"
      let ?f = "\<lambda>subfolder st'.
                  scan_directory fs max_depth subfolder (current_depth + 1)
                    \<lparr>all_folders = all_folders st' @
                       [(subfolder, current_depth, fst (count_files_in_folder fs subfolder))],
                     trace = trace st' @ snd (count_files_in_folder fs subfolder)\<rparr>"
      have subs: "?subs = subdirs fs path"
        by (simp add: subdirs_def Some)
      have start: "R (st\<lparr>trace := trace st @ [Listdir path]\<rparr>)"
        by (rule enter[OF le Some 1(2,3)])
      have step: "R (?f x s)" if "x \<in> set ?subs" "R s" for x and s :: scan_state
      proof -
        from that(1) have "x \<in> set (subdirs fs path)" by (simp only: subs)
        from found[OF le this 1(2) that(2)]
        have a: "A x (current_depth + 1)"
          and p: "P x (current_depth + 1)
                   \<lparr>all_folders = all_folders s @ [(x, current_depth, fst (count_files_in_folder fs x))],
                    trace = trace s @ snd (count_files_in_folder fs x)\<rparr>"
          by (simp_all add: count_files_events)
        show ?thesis
          by (rule 1(1)[OF shallow Some that(1) a p skip unreadable enter found])
      qed
      have "R (fold ?f ?subs (st\<lparr>trace := trace st @ [Listdir path]\<rparr>))"
        using start step by (rule fold_invariant)
      with shallow Some show ?thesis by (subst scan_directory.simps) simp
    qed
  qed
qed

lemma dirs_at_within:
  "0 \<le> max_depth \<Longrightarrow> d \<le> nat max_depth \<Longrightarrow>
   set (dirs_at fs root d) \<subseteq> set (dirs_within fs root max_depth)"
proof -
  assume "0 \<le> max_depth" "d \<le> nat max_depth"
  then have "d \<in> set [0..<Suc (nat max_depth)]" by (simp del: upt_Suc)
  with \<open>0 \<le> max_depth\<close> show ?thesis
    by (auto simp del: upt_Suc simp: dirs_within_def)
qed

lemma dirs_at_step:
  "p \<in> set (dirs_at fs root d) \<Longrightarrow> x \<in> set (subdirs fs p) \<Longrightarrow> x \<in> set (dirs_at fs root (Suc d))"
  by auto

lemma scan_directory_depth_ok:
  assumes "1 \<le> current_depth" "path \<in> set (dirs_at fs root (nat (current_depth - 1)))"
    and "depth_ok fs root max_depth st"
  shows "depth_ok fs root max_depth (scan_directory fs max_depth path current_depth st)"
proof (rule scan_directory_rule[where
      A = "\<lambda>p cd. 1 \<le> cd \<and> p \<in> set (dirs_at fs root (nat (cd - 1)))"
      and P = "\<lambda>p cd. depth_ok fs root max_depth"])
  show "1 \<le> current_depth \<and> path \<in> set (dirs_at fs root (nat (current_depth - 1)))"
    using assms by simp
  show "depth_ok fs root max_depth st" by fact
next
  fix p cd and s :: scan_state
  assume "depth_ok fs root max_depth s"
  then show "depth_ok fs root max_depth s" .
next
  fix p cd and s :: scan_state
  assume le: "cd \<le> max_depth"
    and a: "1 \<le> cd \<and> p \<in> set (dirs_at fs root (nat (cd - 1)))"
    and ok: "depth_ok fs root max_depth s"
  from le a have "0 \<le> max_depth" "nat (cd - 1) \<le> nat max_depth" by simp_all
  from dirs_at_within[OF this] a have "p \<in> set (dirs_within fs root max_depth)"
    by blast
  with ok show "depth_ok fs root max_depth (s\<lparr>trace := trace s @ [Listdir p, Warning p]\<rparr>)"
    by (simp add: depth_ok_def listed_def)
  from \<open>p \<in> set (dirs_within fs root max_depth)\<close> ok
  show "depth_ok fs root max_depth (s\<lparr>trace := trace s @ [Listdir p]\<rparr>)"
    by (simp add: depth_ok_def listed_def)
next
  fix p cd x and s :: scan_state
  assume le: "cd \<le> max_depth" and x: "x \<in> set (subdirs fs p)"
    and a: "1 \<le> cd \<and> p \<in> set (dirs_at fs root (nat (cd - 1)))"
    and ok: "depth_ok fs root max_depth s"
  from a have cd1: "1 \<le> cd" by blast
  then have "Suc (nat (cd - 1)) = nat cd" by arith
  with dirs_at_step[OF conjunct2[OF a] x] have at: "x \<in> set (dirs_at fs root (nat cd))"
    by simp
  from le a have "0 \<le> max_depth" "nat cd \<le> nat max_depth" by simp_all
  from dirs_at_within[OF this] at have "x \<in> set (dirs_within fs root max_depth)"
    by blast
  with at le a ok
  show "(1 \<le> cd + 1 \<and> x \<in> set (dirs_at fs root (nat (cd + 1 - 1)))) \<and>
        depth_ok fs root max_depth
          \<lparr>all_folders = all_folders s @ [(x, cd, fst (count_files_in_folder fs x))],
           trace = trace s @ [Listdir x]\<rparr>"
    by (simp add: depth_ok_def listed_def)
qed

text \<open>
  C4. No record returned by \<^verbatim>\<open>get_all_subfolders_recursive\<close> has a depth above the
  maximum (children of the root have depth 1, and a record of depth \<open>d\<close> is a directory
  \<open>d\<close> steps below the root), and every directory whose contents the scan lists lies
  within the maximum depth: nothing deeper is ever listed.
\<close>

theorem discovery_respects_max_depth:
  "(\<forall>x \<in> set (get_all_subfolders_recursive fs root max_depth).
      1 \<le> fst (snd x) \<and> fst (snd x) \<le> max_depth \<and>
      fst x \<in> set (dirs_at fs root (nat (fst (snd x)))))
   \<and> set (listed (trace (scan_root fs root max_depth))) \<subseteq> set (dirs_within fs root max_depth)"
proof -
  have "depth_ok fs root max_depth (scan_root fs root max_depth)"
    unfolding scan_root_def
    by (rule scan_directory_depth_ok) (simp_all add: depth_ok_def listed_def)
  then show ?thesis
    by (simp add: depth_ok_def get_all_subfolders_recursive_def)
qed

theorem discovery_respects_max_depth_witness:
  "''/import/A/B'' \<notin> set (listed (trace (scan_root scenario_fs ''/import'' 1)))
   \<and> fst (snd (hd (get_all_subfolders_recursive scenario_fs ''/import'' 1))) \<le> 1"
proof -
  have within: "dirs_within scenario_fs ''/import'' 1 = [''/import'', ''/import/A'']"
    by code_simp
  have result: "get_all_subfolders_recursive scenario_fs ''/import'' 1 = [(''/import/A'', 1, 5)]"
    by code_simp
  from discovery_respects_max_depth[of scenario_fs "''/import''" 1]
  have bound: "\<forall>x \<in> set (get_all_subfolders_recursive scenario_fs ''/import'' 1). fst (snd x) \<le> 1"
    and sub: "set (listed (trace (scan_root scenario_fs ''/import'' 1)))
              \<subseteq> set (dirs_within scenario_fs ''/import'' 1)"
    by blast+
  from sub have "''/import/A/B'' \<notin> set (listed (trace (scan_root scenario_fs ''/import'' 1)))"
    unfolding within by auto
  moreover from bound have
    "fst (snd (hd (get_all_subfolders_recursive scenario_fs ''/import'' 1))) \<le> 1"
    unfolding result by simp
  ultimately show ?thesis by blast
qed
lemma sorts_before_key: "sorts_before a b \<longleftrightarrow> folder_key a < folder_key b"
  by (cases a; cases b) (auto simp: sorts_before_def folder_key_def less_prod_def)

lemma folder_key_inj: "folder_key a = folder_key b \<Longrightarrow> a = b"
  by (cases a; cases b) (simp add: folder_key_def)

text \<open>
  C2. The list returned by \<^verbatim>\<open>get_all_subfolders_recursive\<close> is ordered by the key
  (-depth, -file count, path): of two different records, the earlier one has the greater
  depth, or the same depth and the greater file count, or the same depth and file count
  and the smaller path. The list is a rearrangement of the collected records. A root with
  A (depth 1, 5 files) and A/B (depth 2, 3 files) gives the order A/B, A.
\<close>

theorem discovery_order:
  "(\<forall>i j. i < j \<and> j < length (get_all_subfolders_recursive fs root max_depth) \<longrightarrow>
      get_all_subfolders_recursive fs root max_depth ! i =
        get_all_subfolders_recursive fs root max_depth ! j
      \<or> sorts_before (get_all_subfolders_recursive fs root max_depth ! i)
                      (get_all_subfolders_recursive fs root max_depth ! j))
   \<and> mset (get_all_subfolders_recursive fs root max_depth) =
       mset (all_folders (scan_root fs root max_depth))
   \<and> get_all_subfolders_recursive scenario_fs ''/import'' 10 =
       [(''/import/A/B'', 2, 3), (''/import/A'', 1, 5)]"
proof -
  let ?r = "get_all_subfolders_recursive fs root max_depth"
  have sorted: "sorted (map folder_key ?r)"
    by (simp add: get_all_subfolders_recursive_def)
  have order: "?r ! i = ?r ! j \<or> sorts_before (?r ! i) (?r ! j)" if "i < j" "j < length ?r" for i j
  proof -
    from that sorted have "map folder_key ?r ! i \<le> map folder_key ?r ! j"
      by (simp add: sorted_iff_nth_mono del: nth_map)
    with that have "folder_key (?r ! i) \<le> folder_key (?r ! j)" by simp
    then show ?thesis
      using folder_key_inj[of "?r ! i" "?r ! j"] by (auto simp: sorts_before_key)
  qed
  have perm: "mset ?r = mset (all_folders (scan_root fs root max_depth))"
    by (simp add: get_all_subfolders_recursive_def)
  have scenario: "get_all_subfolders_recursive scenario_fs ''/import'' 10 =
       [(''/import/A/B'', 2, 3), (''/import/A'', 1, 5)]"
    by code_simp
  from order perm scenario show ?thesis by blast
qed

theorem discovery_order_witness:
  "sorts_before (''/import/Y'', 1, 1) (''/import/X'', 1, 0)"
proof -
  have result: "get_all_subfolders_recursive locked_fs ''/import'' 1 =
                  [(''/import/Y'', 1, 1), (''/import/X'', 1, 0)]"
    by code_simp
  from discovery_order[of locked_fs "''/import''" 1]
  have "\<forall>i j. i < j \<and> j < length (get_all_subfolders_recursive locked_fs ''/import'' 1) \<longrightarrow>
      get_all_subfolders_recursive locked_fs ''/import'' 1 ! i =
        get_all_subfolders_recursive locked_fs ''/import'' 1 ! j
      \<or> sorts_before (get_all_subfolders_recursive locked_fs ''/import'' 1 ! i)
                      (get_all_subfolders_recursive locked_fs ''/import'' 1 ! j)"
    by blast
  from this[unfolded result, rule_format, of 0 1] show ?thesis by simp
qed

lemma fold_related:
  "Rel s t \<Longrightarrow> (\<And>x s t. x \<in> set xs \<Longrightarrow> Rel s t \<Longrightarrow> Rel (f x s) (g x t)) \<Longrightarrow>
   Rel (fold f xs s) (fold g xs t)"
  by (induction xs arbitrary: s t) auto

lemma count_files_unreadable: "listdir fs p = None \<Longrightarrow> fst (count_files_in_folder fs p) = 0"
  by (simp add: count_files_in_folder_def)

lemma count_files_unreadable_as_empty:
  "count_files_in_folder (unreadable_as_empty fs) p = count_files_in_folder fs p"
  by (simp add: count_files_in_folder_def unreadable_as_empty_def split: option.splits)

lemma listdir_unreadable_as_empty:
  "listdir (unreadable_as_empty fs) p =
     (case listdir fs p of None \<Rightarrow> Some [] | Some items \<Rightarrow> Some items)"
  by (simp add: unreadable_as_empty_def)

lemma isdir_unreadable_as_empty: "isdir (unreadable_as_empty fs) = isdir fs"
  by (simp add: unreadable_as_empty_def)

lemma scan_unreadable_as_empty:
  "all_folders st = all_folders st' \<Longrightarrow>
   all_folders (scan_directory fs max_depth path current_depth st) =
   all_folders (scan_directory (unreadable_as_empty fs) max_depth path current_depth st')"
proof (induction fs max_depth path current_depth st arbitrary: st' rule: scan_directory.induct)
  case (1 fs max_depth path current_depth st)
  note unfold = scan_directory.simps[of fs max_depth path current_depth st]
    scan_directory.simps[of "unreadable_as_empty fs" max_depth path current_depth st']
  show ?case
  proof (cases "current_depth > max_depth")
    case True
    with 1(2) show ?thesis by (simp add: unfold)
  next
    case shallow: False
    show ?thesis
    proof (cases "listdir fs path")
      case None
      with shallow 1(2) show ?thesis by (simp add: unfold listdir_unreadable_as_empty)
    next
      case (Some items)
      let ?subs = "[path_join path item. item \<leftarrow> items, isdir fs (path_join path item)]"
      let ?f = "\<lambda>fs subfolder st'.
                  scan_directory fs max_depth subfolder (current_depth + 1)
                    \<lparr>all_folders = all_folders st' @
                       [(subfolder, current_depth, fst (count_files_in_folder fs subfolder))],
                     trace = trace st' @ snd (count_files_in_folder fs subfolder)\<rparr>"
      let ?Rel = "\<lambda>s t :: scan_state. all_folders s = all_folders t"
      have step: "?Rel (?f fs x s) (?f (unreadable_as_empty fs) x t)"
        if "x \<in> set ?subs" "?Rel s t" for x and s t :: scan_state
        unfolding count_files_unreadable_as_empty
        by (rule 1(1)[OF shallow Some that(1)]) (simp add: that(2))
      have "?Rel (fold (?f fs) ?subs (st\<lparr>trace := trace st @ [Listdir path]\<rparr>))
                 (fold (?f (unreadable_as_empty fs)) ?subs (st'\<lparr>trace := trace st' @ [Listdir path]\<rparr>))"
      proof (rule fold_related[where Rel = ?Rel])
        show "?Rel (st\<lparr>trace := trace st @ [Listdir path]\<rparr>)
                   (st'\<lparr>trace := trace st' @ [Listdir path]\<rparr>)"
          by (simp add: 1(2))
      qed (rule step)
      with shallow Some show ?thesis
        by (simp add: unfold listdir_unreadable_as_empty isdir_unreadable_as_empty)
    qed
  qed
qed

lemma scan_directory_warn_ok:
  assumes "warn_pending fs max_depth path current_depth st"
  shows "warn_ok fs max_depth (scan_directory fs max_depth path current_depth st)"
proof (rule scan_directory_rule[where A = "\<lambda>p cd. True"
      and P = "warn_pending fs max_depth"])
  show True ..
  show "warn_pending fs max_depth path current_depth st" by fact
next
  fix p cd and s :: scan_state
  assume "max_depth < cd" "warn_pending fs max_depth p cd s"
  then show "warn_ok fs max_depth s"
    by (auto simp: warn_pending_def warn_ok_def)
next
  fix p cd and s :: scan_state
  assume "cd \<le> max_depth" "listdir fs p = None" "warn_pending fs max_depth p cd s"
  then show "warn_ok fs max_depth (s\<lparr>trace := trace s @ [Listdir p, Warning p]\<rparr>)"
    by (auto simp: warn_pending_def warn_ok_def warned_def)
next
  fix p cd items and s :: scan_state
  assume "cd \<le> max_depth" "listdir fs p = Some items" "warn_pending fs max_depth p cd s"
  then show "warn_ok fs max_depth (s\<lparr>trace := trace s @ [Listdir p]\<rparr>)"
    by (auto simp: warn_pending_def warn_ok_def warned_def)
next
  fix p cd x and s :: scan_state
  assume "cd \<le> max_depth" "warn_ok fs max_depth s"
  then show "True \<and> warn_pending fs max_depth x (cd + 1)
          \<lparr>all_folders = all_folders s @ [(x, cd, fst (count_files_in_folder fs x))],
           trace = trace s @ [Listdir x]\<rparr>"
    by (auto simp: warn_pending_def warn_ok_def warned_def count_files_unreadable)
qed

lemma concat_map_concat_each:
  "concat (map g (concat xss)) = concat (map (\<lambda>xs. concat (map g xs)) xss)"
  by (induction xss) simp_all

lemma dirs_at_first:
  "dirs_at fs root (Suc n) = concat (map (\<lambda>x. dirs_at fs x n) (subdirs fs root))"
proof (induction n)
  case 0
  then show ?case by simp
next
  case (Suc n)
  have "dirs_at fs root (Suc (Suc n)) = concat (map (subdirs fs) (dirs_at fs root (Suc n)))"
    by simp
  also have "\<dots> = concat (map (subdirs fs) (concat (map (\<lambda>x. dirs_at fs x n) (subdirs fs root))))"
    by (simp only: Suc.IH)
  also have "\<dots> = concat (map (\<lambda>x. dirs_at fs x (Suc n)) (subdirs fs root))"
    by (simp add: concat_map_concat_each comp_def)
  finally show ?case .
qed

lemma scan_directory_keeps:
  "e \<in> set (all_folders st) \<Longrightarrow>
   e \<in> set (all_folders (scan_directory fs max_depth path current_depth st))"
  by (rule scan_directory_rule[where A = "\<lambda>p cd. True"
        and P = "\<lambda>p cd s. e \<in> set (all_folders s)"
        and R = "\<lambda>s. e \<in> set (all_folders s)"]) simp_all

lemma fold_establishes:
  "x \<in> set xs \<Longrightarrow> (\<And>s. Q (f x s)) \<Longrightarrow> (\<And>y s. Q s \<Longrightarrow> Q (f y s)) \<Longrightarrow> Q (fold f xs s)"
proof (induction xs arbitrary: s)
  case Nil
  then show ?case by simp
next
  case (Cons a xs)
  show ?case
  proof (cases "x = a")
    case True
    have "Q (f a s)" unfolding True[symmetric] by (rule Cons.prems(2))
    then have "Q (fold f xs (f a s))"
      by (rule fold_invariant) (rule Cons.prems(3))
    then show ?thesis by simp
  next
    case False
    with Cons.prems(1) have "x \<in> set xs" by simp
    from Cons.IH[OF this Cons.prems(2,3)] show ?thesis by simp
  qed
qed

lemma scan_directory_finds:
  "q \<in> set (dirs_at fs path (Suc n)) \<Longrightarrow> current_depth + int n \<le> max_depth \<Longrightarrow>
   (q, current_depth + int n, fst (count_files_in_folder fs q))
     \<in> set (all_folders (scan_directory fs max_depth path current_depth st))"
proof (induction n arbitrary: path current_depth st)
  case 0
  then have q: "q \<in> set (subdirs fs path)" and le: "\<not> max_depth < current_depth" by simp_all
  then obtain items where items: "listdir fs path = Some items"
    by (cases "listdir fs path") (simp_all add: subdirs_def)
  let ?subs = "[path_join path item. item \<leftarrow> items, isdir fs (path_join path item)]"
  let ?f = "\<lambda>subfolder st'.
              scan_directory fs max_depth subfolder (current_depth + 1)
                \<lparr>all_folders = all_folders st' @
                   [(subfolder, current_depth, fst (count_files_in_folder fs subfolder))],
                 trace = trace st' @ snd (count_files_in_folder fs subfolder)\<rparr>"
  let ?e = "(q, current_depth, fst (count_files_in_folder fs q))"
  from q items have mem: "q \<in> set ?subs" by (simp add: subdirs_def)
  have "?e \<in> set (all_folders (fold ?f ?subs (st\<lparr>trace := trace st @ [Listdir path]\<rparr>)))"
  proof (rule fold_establishes[where Q = "\<lambda>s. ?e \<in> set (all_folders s)", OF mem])
    fix s :: scan_state
    show "?e \<in> set (all_folders (?f q s))"
      by (rule scan_directory_keeps) simp
  next
    fix y and s :: scan_state
    assume "?e \<in> set (all_folders s)"
    then show "?e \<in> set (all_folders (?f y s))"
      by (intro scan_directory_keeps) simp
  qed
  with le items show ?case
    by (subst scan_directory.simps) simp
next
  case (Suc n)
  from Suc.prems(1) obtain x where x: "x \<in> set (subdirs fs path)"
    and q: "q \<in> set (dirs_at fs x (Suc n))"
    by (subst (asm) dirs_at_first) auto
  from Suc.prems(2) have le: "\<not> max_depth < current_depth"
    and deeper: "current_depth + 1 + int n \<le> max_depth" by simp_all
  from x obtain items where items: "listdir fs path = Some items"
    by (cases "listdir fs path") (simp_all add: subdirs_def)
  let ?subs = "[path_join path item. item \<leftarrow> items, isdir fs (path_join path item)]"
  let ?f = "\<lambda>subfolder st'.
              scan_directory fs max_depth subfolder (current_depth + 1)
                \<lparr>all_folders = all_folders st' @
                   [(subfolder, current_depth, fst (count_files_in_folder fs subfolder))],
                 trace = trace st' @ snd (count_files_in_folder fs subfolder)\<rparr>"
  let ?e = "(q, current_depth + int (Suc n), fst (count_files_in_folder fs q))"
  from x items have mem: "x \<in> set ?subs" by (simp add: subdirs_def)
  have "?e \<in> set (all_folders (fold ?f ?subs (st\<lparr>trace := trace st @ [Listdir path]\<rparr>)))"
  proof (rule fold_establishes[where Q = "\<lambda>s. ?e \<in> set (all_folders s)", OF mem])
    fix s :: scan_state
    have "current_depth + int (Suc n) = current_depth + 1 + int n" by simp
    then show "?e \<in> set (all_folders (?f x s))"
      using Suc.IH[OF q deeper] by (simp only:)
  next
    fix y and s :: scan_state
    assume "?e \<in> set (all_folders s)"
    then show "?e \<in> set (all_folders (?f y s))"
      by (intro scan_directory_keeps) simp
  qed
  with le items show ?case
    by (subst scan_directory.simps) (simp del: of_nat_Suc)
qed


lemma scan_directory_warned_within:
  assumes "1 \<le> current_depth" "path \<in> set (dirs_at fs root (nat (current_depth - 1)))"
    and "set (warned (trace st)) \<subseteq> set (dirs_within fs root (max_depth - 1))"
  shows "set (warned (trace (scan_directory fs max_depth path current_depth st)))
           \<subseteq> set (dirs_within fs root (max_depth - 1))"
proof (rule scan_directory_rule[where
      A = "\<lambda>p cd. 1 \<le> cd \<and> p \<in> set (dirs_at fs root (nat (cd - 1)))"
      and P = "\<lambda>p cd s. set (warned (trace s)) \<subseteq> set (dirs_within fs root (max_depth - 1))"])
  show "1 \<le> current_depth \<and> path \<in> set (dirs_at fs root (nat (current_depth - 1)))"
    using assms by simp
  show "set (warned (trace st)) \<subseteq> set (dirs_within fs root (max_depth - 1))" by fact
next
  fix p cd and s :: scan_state
  assume "set (warned (trace s)) \<subseteq> set (dirs_within fs root (max_depth - 1))"
  then show "set (warned (trace s)) \<subseteq> set (dirs_within fs root (max_depth - 1))" .
next
  fix p cd and s :: scan_state
  assume le: "cd \<le> max_depth"
    and a: "1 \<le> cd \<and> p \<in> set (dirs_at fs root (nat (cd - 1)))"
    and ok: "set (warned (trace s)) \<subseteq> set (dirs_within fs root (max_depth - 1))"
  from le a have "0 \<le> max_depth - 1" "nat (cd - 1) \<le> nat (max_depth - 1)" by simp_all
  from dirs_at_within[OF this] a have "p \<in> set (dirs_within fs root (max_depth - 1))"
    by blast
  with ok show "set (warned (trace (s\<lparr>trace := trace s @ [Listdir p, Warning p]\<rparr>)))
                 \<subseteq> set (dirs_within fs root (max_depth - 1))"
    by (simp add: warned_def)
next
  fix p cd items and s :: scan_state
  assume "set (warned (trace s)) \<subseteq> set (dirs_within fs root (max_depth - 1))"
  then show "set (warned (trace (s\<lparr>trace := trace s @ [Listdir p]\<rparr>)))
                 \<subseteq> set (dirs_within fs root (max_depth - 1))"
    by (simp add: warned_def)
next
  fix p cd x and s :: scan_state
  assume x: "x \<in> set (subdirs fs p)"
    and a: "1 \<le> cd \<and> p \<in> set (dirs_at fs root (nat (cd - 1)))"
    and ok: "set (warned (trace s)) \<subseteq> set (dirs_within fs root (max_depth - 1))"
  from a have cd1: "1 \<le> cd" by blast
  then have "Suc (nat (cd - 1)) = nat cd" by arith
  with dirs_at_step[OF conjunct2[OF a] x] have "x \<in> set (dirs_at fs root (nat cd))"
    by simp
  with cd1 ok
  show "(1 \<le> cd + 1 \<and> x \<in> set (dirs_at fs root (nat (cd + 1 - 1)))) \<and>
        set (warned (trace \<lparr>all_folders = all_folders s @ [(x, cd, fst (count_files_in_folder fs x))],
                            trace = trace s @ [Listdir x]\<rparr>))
          \<subseteq> set (dirs_within fs root (max_depth - 1))"
    by (simp add: warned_def)
qed

lemma unreadable_root_warned:
  "listdir fs root = None \<Longrightarrow> 1 \<le> max_depth \<Longrightarrow>
   root \<in> set (warned (trace (scan_root fs root max_depth)))"
  unfolding scan_root_def by (subst scan_directory.simps) (simp add: warned_def)

lemma subdirs_unreadable: "listdir fs p = None \<Longrightarrow> subdirs fs p = []"
  by (simp add: subdirs_def)

text \<open>
  C7, as the code has it. An unreadable directory does not abort the scan: the returned
  list is the one the scan would return if every unreadable directory were readable and
  empty. Every directory found as a subfolder within the maximum depth is in the returned
  list with its depth and file count, an unreadable one with file count 0, and nothing
  lies below an unreadable one. A warning is printed for every unreadable directory (and
  for an unreadable root) whose depth is below the maximum depth; warnings are printed for
  unreadable directories only and for directories of depth below the maximum depth only,
  so none is printed for a directory found at the maximum depth alone.
\<close>

theorem unreadable_directories:
  "all_folders (scan_root fs root max_depth) =
     all_folders (scan_root (unreadable_as_empty fs) root max_depth)
   \<and> get_all_subfolders_recursive fs root max_depth =
     get_all_subfolders_recursive (unreadable_as_empty fs) root max_depth
   \<and> (\<forall>x \<in> set (get_all_subfolders_recursive fs root max_depth).
        listdir fs (fst x) = None \<longrightarrow>
          snd (snd x) = 0 \<and>
          (fst (snd x) < max_depth \<longrightarrow>
             fst x \<in> set (warned (trace (scan_root fs root max_depth)))))
   \<and> (\<forall>p \<in> set (warned (trace (scan_root fs root max_depth))). listdir fs p = None)
   \<and> (\<forall>n p. p \<in> set (dirs_at fs root (Suc n)) \<and> int (Suc n) \<le> max_depth \<longrightarrow>
        (p, int (Suc n), fst (count_files_in_folder fs p))
          \<in> set (get_all_subfolders_recursive fs root max_depth) \<and>
        (listdir fs p = None \<longrightarrow>
           (p, int (Suc n), 0) \<in> set (get_all_subfolders_recursive fs root max_depth) \<and>
           subdirs fs p = []))
   \<and> (\<forall>d p. p \<in> set (dirs_at fs root d) \<and> int d < max_depth \<and> listdir fs p = None \<longrightarrow>
        p \<in> set (warned (trace (scan_root fs root max_depth))))
   \<and> set (warned (trace (scan_root fs root max_depth)))
       \<subseteq> set (dirs_within fs root (max_depth - 1))"
proof -
  let ?result = "get_all_subfolders_recursive fs root max_depth"
  let ?warned = "warned (trace (scan_root fs root max_depth))"
  have same: "all_folders (scan_root fs root max_depth) =
     all_folders (scan_root (unreadable_as_empty fs) root max_depth)"
    unfolding scan_root_def by (rule scan_unreadable_as_empty) simp
  then have sorted: "?result = get_all_subfolders_recursive (unreadable_as_empty fs) root max_depth"
    by (simp add: get_all_subfolders_recursive_def)
  have "warn_ok fs max_depth (scan_root fs root max_depth)"
    unfolding scan_root_def
    by (rule scan_directory_warn_ok) (simp add: warn_pending_def warned_def)
  then have warn: "\<forall>x \<in> set ?result.
        listdir fs (fst x) = None \<longrightarrow>
          snd (snd x) = 0 \<and> (fst (snd x) < max_depth \<longrightarrow> fst x \<in> set ?warned)"
    and only: "\<forall>p \<in> set ?warned. listdir fs p = None"
    by (simp_all add: warn_ok_def get_all_subfolders_recursive_def)
  have found: "(p, int (Suc n), fst (count_files_in_folder fs p)) \<in> set ?result"
    if "p \<in> set (dirs_at fs root (Suc n))" "int (Suc n) \<le> max_depth" for n p
  proof -
    from that(2) have "1 + int n \<le> max_depth" by simp
    from scan_directory_finds[OF that(1) this, of "\<lparr>all_folders = [], trace = []\<rparr>"]
    show ?thesis
      by (simp add: get_all_subfolders_recursive_def scan_root_def add.commute)
  qed
  have listed: "\<forall>n p. p \<in> set (dirs_at fs root (Suc n)) \<and> int (Suc n) \<le> max_depth \<longrightarrow>
        (p, int (Suc n), fst (count_files_in_folder fs p)) \<in> set ?result \<and>
        (listdir fs p = None \<longrightarrow> (p, int (Suc n), 0) \<in> set ?result \<and> subdirs fs p = [])"
    using found count_files_unreadable subdirs_unreadable by metis
  have warned: "p \<in> set ?warned"
    if "p \<in> set (dirs_at fs root d)" "int d < max_depth" "listdir fs p = None" for d p
  proof (cases d)
    case 0
    with that show ?thesis by (simp add: unreadable_root_warned)
  next
    case (Suc n)
    with that have "(p, int (Suc n), fst (count_files_in_folder fs p)) \<in> set ?result"
      by (intro found) simp_all
    from warn[rule_format, OF this] that Suc show ?thesis by simp
  qed
  have within: "set ?warned \<subseteq> set (dirs_within fs root (max_depth - 1))"
    unfolding scan_root_def
    by (rule scan_directory_warned_within) (simp_all add: warned_def)
  from same sorted warn only listed warned within show ?thesis by blast
qed

text \<open>
  The unreadable directory \<open>/import/X\<close> is in the returned list, and at the maximum
  depth no warning is printed for it.
\<close>

theorem unreadable_directory_listed_counterexample:
  "isdir locked_fs ''/import/X'' \<and> listdir locked_fs ''/import/X'' = None
   \<and> (''/import/X'', 1, 0) \<in> set (get_all_subfolders_recursive locked_fs ''/import'' 2)
   \<and> (''/import/X'', 1, 0) \<in> set (get_all_subfolders_recursive locked_fs ''/import'' 1)
   \<and> warned (trace (scan_root locked_fs ''/import'' 1)) = []"
  by code_simp

theorem unreadable_directories_witness:
  "(''/import/X'', 1, 0) \<in> set (get_all_subfolders_recursive locked_fs ''/import'' 2)
   \<and> ''/import/X'' \<in> set (warned (trace (scan_root locked_fs ''/import'' 2)))
   \<and> ''/import/X'' \<notin> set (warned (trace (scan_root locked_fs ''/import'' 1)))"
proof -
  have unreadable: "listdir locked_fs ''/import/X'' = None"
    by code_simp
  have sub: "''/import/X'' \<in> set (dirs_at locked_fs ''/import'' (Suc 0))"
    by code_simp
  have top: "dirs_within locked_fs ''/import'' (1 - 1) = [''/import'']"
    by code_simp
  from unreadable_directories[of locked_fs "''/import''" 2]
  have listed: "\<forall>n p. p \<in> set (dirs_at locked_fs ''/import'' (Suc n)) \<and> int (Suc n) \<le> 2 \<longrightarrow>
        (p, int (Suc n), fst (count_files_in_folder locked_fs p))
          \<in> set (get_all_subfolders_recursive locked_fs ''/import'' 2) \<and>
        (listdir locked_fs p = None \<longrightarrow>
           (p, int (Suc n), 0) \<in> set (get_all_subfolders_recursive locked_fs ''/import'' 2) \<and>
           subdirs locked_fs p = [])"
    and warned: "\<forall>d p. p \<in> set (dirs_at locked_fs ''/import'' d) \<and> int d < 2 \<and>
        listdir locked_fs p = None \<longrightarrow>
        p \<in> set (warned (trace (scan_root locked_fs ''/import'' 2)))"
    by blast+
  from listed[rule_format, of "''/import/X''" 0] sub unreadable
  have a: "(''/import/X'', 1, 0) \<in> set (get_all_subfolders_recursive locked_fs ''/import'' 2)"
    by simp
  from warned[rule_format, of "''/import/X''" "Suc 0"] sub unreadable
  have b: "''/import/X'' \<in> set (warned (trace (scan_root locked_fs ''/import'' 2)))"
    by simp
  from unreadable_directories[of locked_fs "''/import''" 1]
  have "set (warned (trace (scan_root locked_fs ''/import'' 1)))
          \<subseteq> set (dirs_within locked_fs ''/import'' (1 - 1))"
    by blast
  then have c: "''/import/X'' \<notin> set (warned (trace (scan_root locked_fs ''/import'' 1)))"
    unfolding top by auto
  from a b c show ?thesis by blast
qed

section \<open>Properties of classification\<close>

lemma classify_matched:
  "truthy (scene_id f) \<Longrightarrow> classify f (m, p, u) = (m @ [f], p, u)"
  by (simp add: classify_def)

lemma classify_potential:
  "\<not> truthy (scene_id f) \<Longrightarrow> present (scene f) \<or> present (movie f) \<Longrightarrow>
   \<exists>pm. classify f (m, p, u) = (m, p @ [pm], u) \<and> pm_file pm = f"
  by (simp add: classify_def)

lemma classify_unmatched:
  "\<not> truthy (scene_id f) \<Longrightarrow> \<not> (present (scene f) \<or> present (movie f)) \<Longrightarrow>
   \<exists>um. classify f (m, p, u) = (m, p, u @ [um]) \<and> um_path um = JStr (file_path f)"
  by (simp add: classify_def)

lemma fold_classify:
  "fold classify files (m, p, u) = (m', p', u') \<Longrightarrow>
   m' = m @ [f \<leftarrow> files. bucket_of f = Matched]
   \<and> map pm_file p' = map pm_file p @ [f \<leftarrow> files. bucket_of f = Potential]
   \<and> map um_path u' = map um_path u @ map (\<lambda>f. JStr (file_path f)) [f \<leftarrow> files. bucket_of f = Unmatched]"
proof (induction files arbitrary: m p u)
  case Nil
  then show ?case by simp
next
  case (Cons f files)
  from Cons.prems have run: "fold classify files (classify f (m, p, u)) = (m', p', u')"
    by simp
  consider (a) "bucket_of f = Matched" | (b) "bucket_of f = Potential" | (c) "bucket_of f = Unmatched"
    by (cases "bucket_of f") auto
  then show ?case
  proof cases
    case a
    then have "truthy (scene_id f)" by (auto simp: bucket_of_def split: if_splits)
    with run have "fold classify files (m @ [f], p, u) = (m', p', u')"
      by (simp only: classify_matched)
    from Cons.IH[OF this] a show ?thesis by simp
  next
    case b
    then have "\<not> truthy (scene_id f)" "present (scene f) \<or> present (movie f)"
      by (auto simp: bucket_of_def split: if_splits)
    from classify_potential[OF this, of m p u] run
    obtain pm where "fold classify files (m, p @ [pm], u) = (m', p', u')"
      and "pm_file pm = f"
      by auto
    from Cons.IH[OF this(1)] this(2) b show ?thesis by simp
  next
    case c
    then have "\<not> truthy (scene_id f)" "\<not> (present (scene f) \<or> present (movie f))"
      by (auto simp: bucket_of_def split: if_splits)
    from classify_unmatched[OF this, of m p u] run
    obtain um where "fold classify files (m, p, u @ [um]) = (m', p', u')"
      and "um_path um = JStr (file_path f)"
      by auto
    from Cons.IH[OF this(1)] this(2) c show ?thesis by simp
  qed
qed

lemma length_three_filters:
  "length [f \<leftarrow> files. bucket_of f = Matched] + length [f \<leftarrow> files. bucket_of f = Potential]
   + length [f \<leftarrow> files. bucket_of f = Unmatched] = length files"
proof (induction files)
  case Nil
  then show ?case by simp
next
  case (Cons f files)
  then show ?case by (cases "bucket_of f") simp_all
qed

text \<open>
  C3. \<^verbatim>\<open>filter_matched_files\<close> puts every descriptor into exactly one bucket, the one
  \<open>bucket_of\<close> gives for the descriptor alone: the matched list is the sublist of the
  descriptors whose bucket is Matched, the potential list holds those whose bucket is
  Potential and the unmatched list those whose bucket is Unmatched, each in the order of
  the input; the three sizes add up to the length of the input. Ten descriptors, 6 with a
  scene id, 2 with an entity without usable id and 2 with none, give 6, 2 and 2.
\<close>

theorem classification_partitions:
  "(case filter_matched_files files of (matched, potential, unmatched) \<Rightarrow>
      matched = [f \<leftarrow> files. bucket_of f = Matched]
      \<and> map pm_file potential = [f \<leftarrow> files. bucket_of f = Potential]
      \<and> map um_path unmatched =
          map (\<lambda>f. JStr (file_path f)) [f \<leftarrow> files. bucket_of f = Unmatched]
      \<and> length matched + length potential + length unmatched = length files
      \<and> set matched \<inter> set (map pm_file potential) = {})
   \<and> (case filter_matched_files ten_descriptors of (matched, potential, unmatched) \<Rightarrow>
        (length matched, length potential, length unmatched)) = (6, 2, 2)"
proof -
  obtain m p u where run: "filter_matched_files files = (m, p, u)"
    by (cases "filter_matched_files files") auto
  then have "fold classify files ([], [], []) = (m, p, u)"
    by (simp add: filter_matched_files_def)
  from fold_classify[OF this]
  have m: "m = [f \<leftarrow> files. bucket_of f = Matched]"
    and p: "map pm_file p = [f \<leftarrow> files. bucket_of f = Potential]"
    and u: "map um_path u = map (\<lambda>f. JStr (file_path f)) [f \<leftarrow> files. bucket_of f = Unmatched]"
    by simp_all
  have lp: "length p = length [f \<leftarrow> files. bucket_of f = Potential]"
    using arg_cong[OF p, of length] by simp
  have lu: "length u = length [f \<leftarrow> files. bucket_of f = Unmatched]"
    using arg_cong[OF u, of length] by simp
  have len: "length m + length p + length u = length files"
    unfolding m lp lu by (rule length_three_filters)
  have disj: "set m \<inter> set (map pm_file p) = {}"
    unfolding m p by auto
  have ex: "(case filter_matched_files ten_descriptors of (matched, potential, unmatched) \<Rightarrow>
        (length matched, length potential, length unmatched)) = (6, 2, 2)"
    by code_simp
  from m p u len disj have "case (m, p, u) of (matched, potential, unmatched) \<Rightarrow>
      matched = [f \<leftarrow> files. bucket_of f = Matched]
      \<and> map pm_file potential = [f \<leftarrow> files. bucket_of f = Potential]
      \<and> map um_path unmatched =
          map (\<lambda>f. JStr (file_path f)) [f \<leftarrow> files. bucket_of f = Unmatched]
      \<and> length matched + length potential + length unmatched = length files
      \<and> set matched \<inter> set (map pm_file potential) = {}"
    by (simp only: prod.case simp_thms)
  with ex show ?thesis
    unfolding run by (rule conjI[rotated])
qed

section \<open>The resolved identifier\<close>

lemma entity_id_scene_id: "entity_id file = scene_id file"
  by (simp add: entity_id_def scene_id_def)

lemma format_files_matched:
  "\<forall>f \<in> set fs. truthy (scene_id f) \<Longrightarrow> map movieId (format_files mode fs) = map scene_id fs"
  by (induction fs) (simp_all add: format_files_def entity_id_scene_id)

lemma matched_by_bucket:
  "fst (filter_matched_files files) = [f \<leftarrow> files. bucket_of f = Matched]"
proof -
  obtain m p u where "fold classify files ([], [], []) = (m, p, u)"
    by (cases "fold classify files ([], [], [])") auto
  from fold_classify[OF this] this show ?thesis
    by (simp add: filter_matched_files_def)
qed

text \<open>
  C8, as the code has it. \<^verbatim>\<open>import_file_batch\<close> resolves the same identifier as
  \<^verbatim>\<open>filter_matched_files\<close>, and a descriptor is Matched exactly when that identifier
  is usable (truthy). A scene entity with a usable id gives the identifier, whatever the
  movie entity is; when the scene entity is absent or has no usable id, a movie entity with
  a usable id gives it; otherwise there is none and the descriptor is not Matched. The
  Matched list holds exactly the descriptors with a resolved identifier, and each of them
  is submitted with that identifier as \<^verbatim>\<open>movieId\<close>.
\<close>

theorem resolved_identifier:
  "entity_id file = scene_id file
   \<and> (bucket_of file = Matched \<longleftrightarrow> truthy (scene_id file))
   \<and> (present (scene file) \<and> truthy (entity_get (scene file) ''id'') \<longrightarrow>
        scene_id file = entity_get (scene file) ''id'')
   \<and> (\<not> (present (scene file) \<and> truthy (entity_get (scene file) ''id'')) \<and>
        present (movie file) \<and> truthy (entity_get (movie file) ''id'') \<longrightarrow>
        scene_id file = entity_get (movie file) ''id'')
   \<and> (\<not> (present (scene file) \<and> truthy (entity_get (scene file) ''id'')) \<and>
        \<not> (present (movie file) \<and> truthy (entity_get (movie file) ''id'')) \<longrightarrow>
        scene_id file = JNull \<and> bucket_of file \<noteq> Matched)
   \<and> fst (filter_matched_files files) = [f \<leftarrow> files. truthy (scene_id f)]
   \<and> map movieId (format_files mode (fst (filter_matched_files files))) =
       map scene_id (fst (filter_matched_files files))"
proof -
  have a: "entity_id file = scene_id file" by (rule entity_id_scene_id)
  have b: "bucket_of file = Matched \<longleftrightarrow> truthy (scene_id file)"
    by (simp add: bucket_of_def)
  have c: "present (scene file) \<and> truthy (entity_get (scene file) ''id'') \<longrightarrow>
        scene_id file = entity_get (scene file) ''id''"
    by (simp add: scene_id_def)
  have d: "\<not> (present (scene file) \<and> truthy (entity_get (scene file) ''id'')) \<and>
        present (movie file) \<and> truthy (entity_get (movie file) ''id'') \<longrightarrow>
        scene_id file = entity_get (movie file) ''id''"
    by (auto simp: scene_id_def)
  have e: "\<not> (present (scene file) \<and> truthy (entity_get (scene file) ''id'')) \<and>
        \<not> (present (movie file) \<and> truthy (entity_get (movie file) ''id'')) \<longrightarrow>
        scene_id file = JNull \<and> bucket_of file \<noteq> Matched"
    by (auto simp: scene_id_def bucket_of_def)
  have m: "\<And>f. (bucket_of f = Matched) = truthy (scene_id f)"
    by (simp add: bucket_of_def)
  have f: "fst (filter_matched_files files) = [f \<leftarrow> files. truthy (scene_id f)]"
    by (simp add: matched_by_bucket m)
  have g: "map movieId (format_files mode (fst (filter_matched_files files))) =
       map scene_id (fst (filter_matched_files files))"
    unfolding f by (rule format_files_matched) simp
  from a b c d e f g show ?thesis by blast
qed

theorem resolved_identifier_witness:
  "scene_id both_with_id = JInt 1 \<and> scene_id scene_without_id = JInt 7"
proof -
  have s: "present (scene both_with_id) \<and> truthy (entity_get (scene both_with_id) ''id'')"
    by code_simp
  have m: "\<not> (present (scene scene_without_id) \<and> truthy (entity_get (scene scene_without_id) ''id'')) \<and>
        present (movie scene_without_id) \<and> truthy (entity_get (movie scene_without_id) ''id'')"
    by code_simp
  have v1: "entity_get (scene both_with_id) ''id'' = JInt 1" by code_simp
  have v2: "entity_get (movie scene_without_id) ''id'' = JInt 7" by code_simp
  from resolved_identifier[of both_with_id] s v1 have "scene_id both_with_id = JInt 1" by simp
  moreover from resolved_identifier[of scene_without_id] m v2
  have "scene_id scene_without_id = JInt 7" by simp
  ultimately show ?thesis by blast
qed

text \<open>
  Both entities are present, the scene without an id: the descriptor is Matched and the
  identifier submitted is the movie's, not the scene's.
\<close>

theorem scene_does_not_always_win_counterexample:
  "present (scene scene_without_id) \<and> present (movie scene_without_id)
   \<and> bucket_of scene_without_id = Matched
   \<and> entity_id scene_without_id = entity_get (movie scene_without_id) ''id''
   \<and> entity_id scene_without_id \<noteq> entity_get (scene scene_without_id) ''id''"
  by code_simp

section \<open>Properties of the paginated fetch\<close>

lemma fetched_Suc: "fetched stash (Suc k) = fetched stash k @ scenes_of (stash (Suc k))"
  by (simp add: fetched_def)

lemma fetched_0: "fetched stash 0 = []"
  by (simp add: fetched_def)

lemma fetch_pages_stop:
  "code_stops stash (Suc k) \<Longrightarrow>
   fetch_pages stash (Suc k) (fetched stash k) = Some (fetched stash (Suc k), Suc k)"
  by (subst fetch_pages.simps)
     (auto simp: code_stops_def fetched_Suc scenes_of_def split: page_response.splits)

lemma fetch_pages_continue:
  "\<not> code_stops stash (Suc k) \<Longrightarrow>
   fetch_pages stash (Suc k) (fetched stash k) =
   fetch_pages stash (Suc (Suc k)) (fetched stash (Suc k))"
  by (subst fetch_pages.simps)
     (auto simp: code_stops_def fetched_Suc scenes_of_def split: page_response.splits)

lemma fetch_pages_first_stop:
  "code_stops stash (Suc (k + n)) \<Longrightarrow>
   (\<And>j. Suc k \<le> j \<Longrightarrow> j < Suc (k + n) \<Longrightarrow> \<not> code_stops stash j) \<Longrightarrow>
   fetch_pages stash (Suc k) (fetched stash k) = Some (fetched stash (Suc (k + n)), Suc (k + n))"
proof (induction n arbitrary: k)
  case 0
  then show ?case by (simp add: fetch_pages_stop)
next
  case (Suc n)
  have go: "\<not> code_stops stash (Suc k)"
    by (rule Suc.prems(2)) simp_all
  have rest: "\<not> code_stops stash j" if "Suc (Suc k) \<le> j" "j < Suc (Suc k + n)" for j
    using that by (intro Suc.prems(2)) simp_all
  from Suc.prems(1) have "code_stops stash (Suc (Suc k + n))" by simp
  from Suc.IH[OF this rest] fetch_pages_continue[OF go] show ?case by simp
qed

lemma fetch_stops_at_first_stop:
  "first_stop stash k \<Longrightarrow> get_stash_scenes stash = Some (fetched stash k, k)"
proof -
  assume fs: "first_stop stash k"
  then obtain n where k: "k = Suc (0 + n)" by (cases k) (auto simp: first_stop_def)
  from fs have stop: "code_stops stash (Suc (0 + n))"
    by (simp add: first_stop_def k)
  from fs have before: "\<not> code_stops stash j" if "Suc 0 \<le> j" "j < Suc (0 + n)" for j
    using that by (auto simp: first_stop_def k list_all_iff simp del: upt_Suc)
  from fetch_pages_first_stop[OF stop before] show ?thesis
    by (simp add: get_stash_scenes_def k fetched_0)
qed

lemma fetch_pages_returns_stop:
  assumes "fetch_pages stash page acc = Some r"
  shows "1 \<le> page \<longrightarrow> acc = fetched stash (page - 1) \<longrightarrow> (\<exists>k\<ge>page. code_stops stash k)"
proof (rule fetch_pages.raw_induct[where P = "\<lambda>stash page acc r.
         1 \<le> page \<longrightarrow> acc = fetched stash (page - 1) \<longrightarrow> (\<exists>k\<ge>page. code_stops stash k)",
       OF _ assms])
  fix f stash page acc and r :: "'a list \<times> nat"
  assume IH: "\<And>s p a y. f s p a = Some y \<Longrightarrow>
                1 \<le> p \<longrightarrow> a = fetched s (p - 1) \<longrightarrow> (\<exists>k\<ge>p. code_stops s k)"
    and body: "(case stash page of
                  Page scenes total_count \<Rightarrow>
                    if scenes = [] then Some (acc, page)
                    else if total_count \<le> int (length (acc @ scenes))
                         then Some (acc @ scenes, page)
                         else f stash (page + 1) (acc @ scenes)
                | _ \<Rightarrow> Some (acc, page)) = Some r"
  show "1 \<le> page \<longrightarrow> acc = fetched stash (page - 1) \<longrightarrow> (\<exists>k\<ge>page. code_stops stash k)"
  proof (intro impI)
    assume page: "1 \<le> page" and acc: "acc = fetched stash (page - 1)"
    then obtain p where p: "page = Suc p" by (cases page) auto
    show "\<exists>k\<ge>page. code_stops stash k"
    proof (cases "code_stops stash page")
      case True
      then show ?thesis by blast
    next
      case False
      then obtain scenes total_count where resp: "stash page = Page scenes total_count"
        and ne: "scenes \<noteq> []" and less: "\<not> total_count \<le> int (length (fetched stash page))"
        by (auto simp: code_stops_def split: page_response.splits)
      have next_acc: "acc @ scenes = fetched stash (page + 1 - 1)"
        using resp[unfolded p] by (simp add: acc p fetched_Suc scenes_of_def)
      with less have "\<not> total_count \<le> int (length (acc @ scenes))" by simp
      with body resp ne have "f stash (page + 1) (acc @ scenes) = Some r"
        by simp
      from IH[OF this] next_acc have "\<exists>k\<ge>page + 1. code_stops stash k"
        by simp
      then obtain k where "k \<ge> page + 1" "code_stops stash k" by blast
      then show ?thesis by (intro exI[of _ k]) simp
    qed
  qed
qed

lemma first_stop_exists:
  assumes "1 \<le> k" "code_stops stash k"
  shows "\<exists>m. first_stop stash m"
proof -
  define m where "m = (LEAST j. 1 \<le> j \<and> code_stops stash j)"
  from assms have ex: "1 \<le> k \<and> code_stops stash k" by simp
  from LeastI[of "\<lambda>j. 1 \<le> j \<and> code_stops stash j", OF ex]
  have m: "1 \<le> m" "code_stops stash m" by (simp_all add: m_def)
  have "\<not> code_stops stash j" if "1 \<le> j" "j < m" for j
    using not_less_Least[of j "\<lambda>j. 1 \<le> j \<and> code_stops stash j"] that by (auto simp: m_def)
  with m have "first_stop stash m"
    by (auto simp: first_stop_def list_all_iff)
  then show ?thesis ..
qed

text \<open>
  C6, as the code has it. The loop of \<^verbatim>\<open>get_stash_scenes\<close> returns exactly when some page
  ends it, and then at the first such page \<open>k\<close>, with the scenes of pages 1 to \<open>k\<close> and
  after \<open>k\<close> requests: the first page whose request fails, whose body carries errors,
  which is empty, or with which the cumulative count reaches the reported total. When no
  page does, the loop does not return.
\<close>

theorem fetch_stops_exactly_at_first_stop:
  "(get_stash_scenes stash = Some r) \<longleftrightarrow> (\<exists>k. first_stop stash k \<and> r = (fetched stash k, k))"
proof
  assume run: "get_stash_scenes stash = Some r"
  then have "fetch_pages stash 1 [] = Some r" by (simp add: get_stash_scenes_def)
  from fetch_pages_returns_stop[OF this] obtain k where "1 \<le> k" "code_stops stash k"
    by (auto simp: fetched_0)
  from first_stop_exists[OF this] obtain m where m: "first_stop stash m" ..
  from fetch_stops_at_first_stop[OF m] run have "r = (fetched stash m, m)" by simp
  with m show "\<exists>k. first_stop stash k \<and> r = (fetched stash k, k)" by blast
next
  assume "\<exists>k. first_stop stash k \<and> r = (fetched stash k, k)"
  then show "get_stash_scenes stash = Some r"
    using fetch_stops_at_first_stop by blast
qed

theorem fetch_stops_exactly_at_first_stop_witness:
  "first_stop short_pages 3 \<and> get_stash_scenes short_pages = Some ([1, 2, 3], 3)"
proof -
  have h: "first_stop short_pages 3" by code_simp
  have f: "fetched short_pages 3 = [1, 2, 3]" by code_simp
  from h f have "\<exists>k. first_stop short_pages k \<and> ([1, 2, 3], 3) = (fetched short_pages k, k)"
    by (intro exI[of _ 3]) simp
  with fetch_stops_exactly_at_first_stop[of short_pages "([1, 2, 3], 3)"] h
  show ?thesis by blast
qed

text \<open>
  The first page has one item, fewer than the page size, and the loop goes on to fetch
  three pages.
\<close>

theorem short_page_does_not_stop_counterexample:
  "spec_stops short_pages 1 \<and> get_stash_scenes short_pages = Some ([1, 2, 3], 3)"
  by code_simp

section \<open>Properties of the file import run\<close>











section \<open>Properties of the catalog sync\<close>

















section \<open>Properties of the dry run\<close>














end
